theory Spec2Isabelle
  imports Complex_Main "HOL-Library.AList" "HOL-Library.Multiset" "HOL-Library.Sublist"
begin

section \<open>JavaScript objects, keys and errors\<close>

text \<open>
  The lineup optimizer (\<^verbatim>\<open>src/tools/LineupOptimizerTool.ts\<close>) works on plain JavaScript
  objects used as dictionaries. An object is modelled by its own properties in insertion
  order. Reading a property that is not an own property falls through to
  \<^verbatim>\<open>Object.prototype\<close>: the read gives \<^verbatim>\<open>undefined\<close> unless the key names one of the
  inherited members, in which case it gives a function (or, for \<^verbatim>\<open>__proto__\<close>, the
  prototype object): a truthy value that has no \<^verbatim>\<open>push\<close>, \<^verbatim>\<open>find\<close> or \<^verbatim>\<open>forEach\<close>, so
  that calling one of them raises a \<^verbatim>\<open>TypeError\<close>.

  Numbers are modelled as rationals: every finite double is a rational, and the
  comparisons the optimizer makes are the comparisons of these exact values.
\<close>

datatype error = TypeError | SyntaxError | NetworkError

datatype 'a property = Undefined | Inherited | Own 'a

type_synonym 'a object = "(string \<times> 'a) list"

definition objectPrototypeKeys :: "string list" where
  "objectPrototypeKeys =
     [''constructor'', ''__proto__'', ''hasOwnProperty'', ''isPrototypeOf'',
      ''propertyIsEnumerable'', ''toLocaleString'', ''toString'', ''valueOf'',
      ''__defineGetter__'', ''__defineSetter__'', ''__lookupGetter__'',
      ''__lookupSetter__'']"

definition getProp :: "'a object \<Rightarrow> string \<Rightarrow> 'a property" where
  "getProp obj k =
     (case map_of obj k of
        Some v \<Rightarrow> Own v
      | None \<Rightarrow> if k \<in> set objectPrototypeKeys then Inherited else Undefined)"

text \<open>
  \<^verbatim>\<open>Object.keys\<close> lists the own keys that are array indices (canonical decimal strings
  below \<open>2\<^sup>3\<^sup>2 - 1\<close>) first, in ascending numeric order, and then the other keys in
  insertion order.
\<close>

definition digits :: string where
  "digits = ''0123456789''"

definition digitValue :: "char \<Rightarrow> int" where
  "digitValue c = (case map_of (zip digits [0, 1, 2, 3, 4, 5, 6, 7, 8, 9]) c of Some d \<Rightarrow> d | None \<Rightarrow> 0)"

definition decimalValue :: "string \<Rightarrow> int" where
  "decimalValue s = foldl (\<lambda>n c. 10 * n + digitValue c) 0 s"

definition isArrayIndex :: "string \<Rightarrow> bool" where
  "isArrayIndex s \<longleftrightarrow>
     s \<noteq> [] \<and> list_all (\<lambda>c. c \<in> set digits) s \<and> (s = ''0'' \<or> hd s \<noteq> CHR ''0'')
     \<and> decimalValue s < 4294967295"

definition objectKeys :: "'a object \<Rightarrow> string list" where
  "objectKeys obj =
     sort_key decimalValue (filter isArrayIndex (map fst obj))
     @ filter (\<lambda>k. \<not> isArrayIndex k) (map fst obj)"

text \<open>
  \<^verbatim>\<open>xs.forEach(f)\<close> where the callback updates local state and may throw: the state is
  threaded through, and the first exception ends the loop.
\<close>

fun forEach :: "('s \<Rightarrow> 'a \<Rightarrow> error + 's) \<Rightarrow> 'a list \<Rightarrow> 's \<Rightarrow> error + 's" where
  "forEach f [] s = Inr s"
| "forEach f (x # xs) s = (case f s x of Inl e \<Rightarrow> Inl e | Inr s' \<Rightarrow> forEach f xs s')"

section \<open>Players and position groups\<close>

text \<open>An entry of the player pool built by \<^verbatim>\<open>execute\<close> (lines 92-108).\<close>

record player =
  playerId :: string
  name :: string
  position :: string
  team :: string
  status :: string
  projectedPoints :: rat
  eligiblePositions :: "string list"

text \<open>An entry of the lineup: \<^verbatim>\<open>{ ...bestPlayer, lineupPosition: position }\<close>.\<close>

record starter = player +
  lineupPosition :: string

definition withLineupPosition :: "player \<Rightarrow> string \<Rightarrow> starter" where
  "withLineupPosition bestPlayer pos = player.extend bestPlayer (starter.fields pos)"

text \<open>
  \<^verbatim>\<open>grouped[position].sort((a, b) => b.projectedPoints - a.projectedPoints)\<close>: the
  engine's \<^verbatim>\<open>Array.prototype.sort\<close> with this comparator is a parameter \<open>srt\<close> of the
  grouping. ECMAScript requires the result to be a permutation of the array, ordered by
  the comparator, and (since ES2019) stable; \<open>sortContract\<close> states this, and
  \<open>arraySort\<close> is the insertion sort that meets it.
\<close>

definition sortContract :: "(player list \<Rightarrow> player list) \<Rightarrow> bool" where
  "sortContract srt \<longleftrightarrow>
     (\<forall>ps. mset (srt ps) = mset ps
         \<and> sorted (map (\<lambda>p. - projectedPoints p) (srt ps))
         \<and> (\<forall>v. filter (\<lambda>p. projectedPoints p = v) (srt ps)
                = filter (\<lambda>p. projectedPoints p = v) ps))"

definition arraySort :: "player list \<Rightarrow> player list" where
  "arraySort ps = sort_key (\<lambda>p. - projectedPoints p) ps"

text \<open>
  The body of the inner loop of \<^verbatim>\<open>groupPlayersByPosition\<close> (lines 179-180):
  \<^verbatim>\<open>if (!grouped[position]) grouped[position] = []; grouped[position].push(player)\<close>.
\<close>

definition pushGrouped :: "player \<Rightarrow> player list object \<Rightarrow> string \<Rightarrow> error + player list object" where
  "pushGrouped p grouped pos =
     (case getProp grouped pos of
        Undefined \<Rightarrow> Inr (grouped @ [(pos, [p])])
      | Own ps \<Rightarrow> Inr (AList.update pos (ps @ [p]) grouped)
      | Inherited \<Rightarrow> Inl TypeError)"

definition collectGroups :: "player list \<Rightarrow> error + player list object" where
  "collectGroups players =
     forEach (\<lambda>grouped p. forEach (pushGrouped p) (eligiblePositions p) grouped) players []"

text \<open>
  \<^verbatim>\<open>groupPlayersByPosition\<close> (lines 174-190). The second loop sorts the array of every own
  key in place; each key is visited once, so it is a map over the entries.
\<close>

definition groupPlayersByPosition ::
  "(player list \<Rightarrow> player list) \<Rightarrow> player list \<Rightarrow> error + player list object" where
  "groupPlayersByPosition srt players =
     (case collectGroups players of
        Inl e \<Rightarrow> Inl e
      | Inr grouped \<Rightarrow> Inr (map (\<lambda>(pos, ps). (pos, srt ps)) grouped))"

section \<open>The assignment: \<^verbatim>\<open>optimizeLineup\<close>\<close>

text \<open>
  The test of the two scanning loops (lines 208-209 and 219-220):
  \<^verbatim>\<open>!usedPlayers.has(player.playerId) && (!bestPlayer || player.projectedPoints > bestPlayer.projectedPoints)\<close>.
\<close>

definition better :: "string set \<Rightarrow> player option \<Rightarrow> player \<Rightarrow> bool" where
  "better usedPlayers bestPlayer p \<longleftrightarrow>
     playerId p \<notin> usedPlayers
     \<and> (case bestPlayer of None \<Rightarrow> True | Some b \<Rightarrow> projectedPoints p > projectedPoints b)"

fun scanPlayers :: "string set \<Rightarrow> player list \<Rightarrow> player option \<Rightarrow> player option" where
  "scanPlayers usedPlayers [] bestPlayer = bestPlayer"
| "scanPlayers usedPlayers (p # ps) bestPlayer =
     scanPlayers usedPlayers ps (if better usedPlayers bestPlayer p then Some p else bestPlayer)"

definition flexEligible :: "string list" where
  "flexEligible = [''RB'', ''WR'', ''TE'']"

text \<open>The candidate \<^verbatim>\<open>bestPlayer\<close> for one non-bench slot (lines 200-232).\<close>

definition bestPlayerFor ::
  "player list object \<Rightarrow> string set \<Rightarrow> string \<Rightarrow> error + player option" where
  "bestPlayerFor playersByPosition usedPlayers pos =
     (if pos = ''FLEX'' then
        forEach (\<lambda>bestPlayer k.
            case getProp playersByPosition k of
              Undefined \<Rightarrow> Inr bestPlayer
            | Own ps \<Rightarrow> Inr (scanPlayers usedPlayers ps bestPlayer)
            | Inherited \<Rightarrow> Inl TypeError)
          flexEligible None
      else if pos = ''SUPER_FLEX'' then
        forEach (\<lambda>bestPlayer k.
            case getProp playersByPosition k of
              Own ps \<Rightarrow> Inr (scanPlayers usedPlayers ps bestPlayer)
            | _ \<Rightarrow> Inl TypeError)
          (objectKeys playersByPosition) None
      else
        (case getProp playersByPosition pos of
           Undefined \<Rightarrow> Inr None
         | Own ps \<Rightarrow> Inr (find (\<lambda>p. playerId p \<notin> usedPlayers) ps)
         | Inherited \<Rightarrow> Inl TypeError))"

text \<open>The body of the loop over \<^verbatim>\<open>rosterPositions\<close> (lines 197-241).\<close>

definition fillSlot ::
  "player list object \<Rightarrow> starter list \<times> string set \<Rightarrow> string
     \<Rightarrow> error + starter list \<times> string set" where
  "fillSlot playersByPosition st pos =
     (if pos = ''BN'' then Inr st
      else case bestPlayerFor playersByPosition (snd st) pos of
        Inl e \<Rightarrow> Inl e
      | Inr None \<Rightarrow> Inr st
      | Inr (Some p) \<Rightarrow>
          Inr (fst st @ [withLineupPosition p pos], insert (playerId p) (snd st)))"

definition optimizeLineup :: "player list object \<Rightarrow> string list \<Rightarrow> error + starter list" where
  "optimizeLineup playersByPosition rosterPositions =
     (case forEach (fillSlot playersByPosition) rosterPositions ([], {}) of
        Inl e \<Rightarrow> Inl e
      | Inr st \<Rightarrow> Inr (fst st))"

text \<open>
  The assignment as \<^verbatim>\<open>execute\<close> runs it (lines 111-114): group the pool, then fill the
  roster positions.
\<close>

definition assign ::
  "(player list \<Rightarrow> player list) \<Rightarrow> player list \<Rightarrow> string list \<Rightarrow> error + starter list" where
  "assign srt playerPool rosterPositions =
     (case groupPlayersByPosition srt playerPool of
        Inl e \<Rightarrow> Inl e
      | Inr playersByPosition \<Rightarrow> optimizeLineup playersByPosition rosterPositions)"

text \<open>
  \<^verbatim>\<open>optimizedLineup.reduce((sum, player) => sum + player.projectedPoints, 0)\<close>
  (lines 122-123).
\<close>

definition optimalProjection :: "starter list \<Rightarrow> rat" where
  "optimalProjection lineup = foldl (\<lambda>sum p. sum + projectedPoints p) 0 lineup"

section \<open>Projections and the player pool (\<^verbatim>\<open>execute\<close>)\<close>





text \<open>\<^verbatim>\<open>x || 0\<close> on a number that may be absent.\<close>

definition orZero :: "rat option \<Rightarrow> rat" where
  "orZero x = (case x of None \<Rightarrow> 0 | Some v \<Rightarrow> v)"





text \<open>
  \<^verbatim>\<open>Number(x.toFixed(d))\<close>: the multiple of \<open>10\<^sup>-\<^sup>d\<close> nearest to \<open>x\<close>, the one of larger
  magnitude when two are equally near.
\<close>

definition toFixed :: "nat \<Rightarrow> rat \<Rightarrow> rat" where
  "toFixed d x =
     (if x < 0 then - (of_int \<lfloor>- x * 10 ^ d + 1 / 2\<rfloor> / 10 ^ d)
      else of_int \<lfloor>x * 10 ^ d + 1 / 2\<rfloor> / 10 ^ d)"

text \<open>
  The values a property of a parsed JSON object can have, as far as the tool looks at
  them.
\<close>

datatype jsval = JNull | JBool bool | JNum rat | JStr string | JArr "string list" | JObj

text \<open>
  A record of the Sleeper player table (\<^verbatim>\<open>SleeperPlayer\<close> in \<^verbatim>\<open>types/sleeper.ts\<close>): the
  fields the optimizer reads, and \<open>objectValues\<close>, what \<^verbatim>\<open>Object.values\<close> lists for the
  record (the values of all its properties, in property order).
\<close>

record sleeperPlayer =
  first_name :: string
  last_name :: string
  sleeper_position :: string
  sleeper_team :: string
  sleeper_status :: string
  fantasy_positions :: "string list option"
  objectValues :: "jsval list"

text \<open>
  \<^verbatim>\<open>new Map(pairs).get(playerId) || 0\<close> (lines 87-89 and 97): of several pairs with one
  key the last one counts.
\<close>

definition projectionOf :: "(string \<times> rat) list \<Rightarrow> string \<Rightarrow> rat" where
  "projectionOf playerProjections pid = orZero (map_of (rev playerProjections) pid)"

text \<open>One element of the \<^verbatim>\<open>map\<close> of lines 92-108; \<open>None\<close> is \<^verbatim>\<open>null\<close>.\<close>

definition poolEntry ::
  "sleeperPlayer object \<Rightarrow> (string \<times> rat) list \<Rightarrow> string \<Rightarrow> player option" where
  "poolEntry players playerProjections pid =
     (case getProp players pid of
        Own pl \<Rightarrow>
          Some \<lparr>playerId = pid,
                name = first_name pl @ '' '' @ last_name pl,
                position = sleeper_position pl,
                team = sleeper_team pl,
                status = sleeper_status pl,
                projectedPoints = toFixed 2 (projectionOf playerProjections pid),
                eligiblePositions =
                  (case fantasy_positions pl of
                     Some fp \<Rightarrow> fp
                   | None \<Rightarrow> [sleeper_position pl])\<rparr>
      | _ \<Rightarrow> None)"

text \<open>
  \<^verbatim>\<open>playerPool\<close> (lines 92-108). An identifier that names an inherited member of the
  table object gives an object without a \<^verbatim>\<open>status\<close>, which the last filter drops like a
  \<^verbatim>\<open>null\<close>.
\<close>

definition playerPool ::
  "sleeperPlayer object \<Rightarrow> (string \<times> rat) list \<Rightarrow> string list \<Rightarrow> player list" where
  "playerPool players playerProjections rosterPlayers =
     filter (\<lambda>p. status p = ''Active'')
       (List.map_filter (poolEntry players playerProjections) rosterPlayers)"

section \<open>The diff: \<^verbatim>\<open>findLineupChanges\<close>\<close>

text \<open>
  The addition \<^verbatim>\<open>s + (p || 0)\<close> of line 268 on JavaScript values. An array or object
  operand is first turned into a string; if one operand is a string the other is turned
  into a string and the two are concatenated; otherwise both are \<^verbatim>\<open>null\<close>, booleans or
  numbers and are added as numbers. The conversion of a number to a string is the
  engine's, a parameter \<open>numberToString\<close>.
\<close>

definition truthy :: "jsval \<Rightarrow> bool" where
  "truthy v =
     (case v of
        JNull \<Rightarrow> False
      | JBool b \<Rightarrow> b
      | JNum r \<Rightarrow> r \<noteq> 0
      | JStr s \<Rightarrow> s \<noteq> []
      | _ \<Rightarrow> True)"

fun joinComma :: "string list \<Rightarrow> string" where
  "joinComma [] = []"
| "joinComma [s] = s"
| "joinComma (s # t # ss) = s @ '','' @ joinComma (t # ss)"

definition toPrimitive :: "jsval \<Rightarrow> jsval" where
  "toPrimitive v =
     (case v of
        JArr ss \<Rightarrow> JStr (joinComma ss)
      | JObj \<Rightarrow> JStr ''[object Object]''
      | _ \<Rightarrow> v)"

definition toStringJs :: "(rat \<Rightarrow> string) \<Rightarrow> jsval \<Rightarrow> string" where
  "toStringJs numberToString v =
     (case toPrimitive v of
        JNull \<Rightarrow> ''null''
      | JBool b \<Rightarrow> (if b then ''true'' else ''false'')
      | JNum r \<Rightarrow> numberToString r
      | JStr s \<Rightarrow> s
      | _ \<Rightarrow> [])"

definition isString :: "jsval \<Rightarrow> bool" where
  "isString v = (case v of JStr s \<Rightarrow> True | _ \<Rightarrow> False)"

text \<open>
  The conversion of a string to a number gives \<^verbatim>\<open>NaN\<close> whenever the string holds a
  character that occurs in no numeric literal (a letter that is neither a hexadecimal
  digit nor one of \<^verbatim>\<open>x\<close>, \<^verbatim>\<open>o\<close> and the letters of \<^verbatim>\<open>Infinity\<close>); on the other strings
  it is the engine's, a parameter \<open>parseNumber\<close>. \<open>None\<close> is a result that is not a
  finite number.
\<close>

definition nonNumericChars :: string where
  "nonNumericChars = ''ghjklmpqrsuvwzGHJKLMNPQRSTUVWYZ''"

definition stringToNumber :: "(string \<Rightarrow> rat option) \<Rightarrow> string \<Rightarrow> rat option" where
  "stringToNumber parseNumber s =
     (if list_ex (\<lambda>c. c \<in> set nonNumericChars) s then None else parseNumber s)"

definition toNumber :: "(string \<Rightarrow> rat option) \<Rightarrow> jsval \<Rightarrow> rat option" where
  "toNumber parseNumber v =
     (case toPrimitive v of
        JNull \<Rightarrow> Some 0
      | JBool b \<Rightarrow> Some (if b then 1 else 0)
      | JNum r \<Rightarrow> Some r
      | JStr s \<Rightarrow> stringToNumber parseNumber s
      | _ \<Rightarrow> None)"

definition jsPlus :: "(rat \<Rightarrow> string) \<Rightarrow> jsval \<Rightarrow> jsval \<Rightarrow> jsval" where
  "jsPlus numberToString a b =
     (if isString (toPrimitive a) \<or> isString (toPrimitive b)
      then JStr (toStringJs numberToString a @ toStringJs numberToString b)
      else (case (toNumber (\<lambda>s. None) a, toNumber (\<lambda>s. None) b) of
              (Some x, Some y) \<Rightarrow> JNum (x + y)
            | _ \<Rightarrow> JNull))"

text \<open>
  \<^verbatim>\<open>Object.values(player).reduce((s, p) => s + (p || 0), 0)\<close> (line 268).
\<close>

definition sumValues :: "(rat \<Rightarrow> string) \<Rightarrow> jsval list \<Rightarrow> jsval" where
  "sumValues numberToString vs =
     foldl (\<lambda>s p. jsPlus numberToString s (if truthy p then p else JNum 0)) (JNum 0) vs"

record change =
  change_position :: nat
  current_playerId :: string
  current_name :: string
  suggested_playerId :: string
  suggested_name :: string
  projectedPointsGain :: "rat option"

text \<open>
  The callback of \<^verbatim>\<open>currentStarters.forEach\<close> (lines 250-273); \<open>None\<close> when nothing is
  pushed. \<^verbatim>\<open>optimizedLineup[index]\<close> is \<^verbatim>\<open>undefined\<close> from the length of the lineup on.
  \<open>projectedPointsGain\<close> is the number that \<^verbatim>\<open>toFixed(1)\<close> prints, \<open>None\<close> when it prints
  \<^verbatim>\<open>NaN\<close> or an infinity.
\<close>

definition changeAt ::
  "(rat \<Rightarrow> string) \<Rightarrow> (string \<Rightarrow> rat option) \<Rightarrow> starter list \<Rightarrow> sleeperPlayer object
     \<Rightarrow> nat \<times> string \<Rightarrow> change option" where
  "changeAt numberToString parseNumber optimizedLineup players ic =
     (let index = fst ic;
          currentPlayerId = snd ic;
          suggestedPlayer =
            (if index < length optimizedLineup then Some (optimizedLineup ! index) else None);
          optimizedPlayerId = map_option playerId suggestedPlayer
      in if Some currentPlayerId \<noteq> optimizedPlayerId then
           (case suggestedPlayer of
              None \<Rightarrow> None
            | Some sp \<Rightarrow>
                Some \<lparr>change_position = index,
                      current_playerId = currentPlayerId,
                      current_name =
                        (case getProp players currentPlayerId of
                           Own pl \<Rightarrow> first_name pl @ '' '' @ last_name pl
                         | Inherited \<Rightarrow> ''undefined undefined''
                         | Undefined \<Rightarrow> ''Unknown''),
                      suggested_playerId = playerId sp,
                      suggested_name = name sp,
                      projectedPointsGain =
                        map_option (\<lambda>r. toFixed 1 (projectedPoints sp - r))
                          (case getProp players currentPlayerId of
                             Own pl \<Rightarrow>
                               toNumber parseNumber (sumValues numberToString (objectValues pl))
                           | _ \<Rightarrow> Some 0)\<rparr>)
         else None)"

definition findLineupChanges ::
  "(rat \<Rightarrow> string) \<Rightarrow> (string \<Rightarrow> rat option) \<Rightarrow> string list \<Rightarrow> starter list
     \<Rightarrow> sleeperPlayer object \<Rightarrow> change list" where
  "findLineupChanges numberToString parseNumber currentStarters optimizedLineup players =
     List.map_filter (changeAt numberToString parseNumber optimizedLineup players)
       (enumerate 0 currentStarters)"

section \<open>Auxiliary notions and the scenarios of the specification\<close>

text \<open>A candidate is either absent or a player that has not been used.\<close>

definition unusedBest :: "string set \<Rightarrow> player option \<Rightarrow> bool" where
  "unusedBest usedPlayers b = (case b of None \<Rightarrow> True | Some p \<Rightarrow> playerId p \<notin> usedPlayers)"

text \<open>What the loop over the roster positions keeps true of its state.\<close>

definition lineupInv :: "starter list \<times> string set \<Rightarrow> bool" where
  "lineupInv st \<longleftrightarrow> distinct (map playerId (fst st)) \<and> playerId ` set (fst st) = snd st"

definition nonBench :: "string list \<Rightarrow> string list" where
  "nonBench rosterPositions = filter (\<lambda>pos. pos \<noteq> ''BN'') rosterPositions"

text \<open>An active player eligible for its own position only, as the scenarios use them.\<close>

definition activePlayer :: "string \<Rightarrow> string \<Rightarrow> rat \<Rightarrow> player" where
  "activePlayer pid pos pts =
     \<lparr>playerId = pid, name = pid, position = pos, team = ''FA'', status = ''Active'',
      projectedPoints = pts, eligiblePositions = [pos]\<rparr>"

definition scenarioA_players :: "player list" where
  "scenarioA_players =
     [activePlayer ''QB1'' ''QB'' 20, activePlayer ''RB1'' ''RB'' 15,
      activePlayer ''RB2'' ''RB'' 12, activePlayer ''WR1'' ''WR'' 14,
      activePlayer ''RB3'' ''RB'' 8]"

definition scenarioA_slots :: "string list" where
  "scenarioA_slots = [''QB'', ''RB'', ''RB'', ''FLEX'', ''BN'']"

text \<open>A record of the player table with the properties of \<^verbatim>\<open>SleeperPlayer\<close>, in its order.\<close>

definition tableEntry :: "string \<Rightarrow> string \<Rightarrow> sleeperPlayer" where
  "tableEntry pid pos =
     \<lparr>first_name = pid, last_name = ''Player'', sleeper_position = pos,
      sleeper_team = ''FA'', sleeper_status = ''Active'', fantasy_positions = Some [pos],
      objectValues =
        [JStr pid, JStr pos, JStr ''FA'', JStr pid, JStr ''Player'',
         JStr (pid @ '' Player''), JNum 25, JArr [pos], JStr ''Active'']\<rparr>"

definition scenarioD_starters :: "string list" where
  "scenarioD_starters = [''QB2'', ''RB1'']"

definition scenarioD_optimal :: "starter list" where
  "scenarioD_optimal =
     [withLineupPosition (activePlayer ''QB1'' ''QB'' 20) ''QB'',
      withLineupPosition (activePlayer ''RB1'' ''RB'' 15) ''RB'']"

definition scenarioD_players :: "sleeperPlayer object" where
  "scenarioD_players =
     [(''QB1'', tableEntry ''QB1'' ''QB''), (''QB2'', tableEntry ''QB2'' ''QB''),
      (''RB1'', tableEntry ''RB1'' ''RB'')]"

text \<open>
  An indexed starter differs from the lineup: the lineup has an entry at the index, and
  it is another player.
\<close>

definition differs :: "starter list \<Rightarrow> nat \<times> string \<Rightarrow> bool" where
  "differs optimizedLineup ic \<longleftrightarrow>
     fst ic < length optimizedLineup \<and> snd ic \<noteq> playerId (optimizedLineup ! fst ic)"



text \<open>
  A key that names an inherited member of a plain object; a roster position that is
  looked up as a position of its own; an object none of whose own keys is such a name.
\<close>

definition inheritedName :: "string \<Rightarrow> bool" where
  "inheritedName k \<longleftrightarrow> k \<in> set objectPrototypeKeys"

definition fixedSlot :: "string \<Rightarrow> bool" where
  "fixedSlot pos \<longleftrightarrow> pos \<noteq> ''BN'' \<and> pos \<noteq> ''FLEX'' \<and> pos \<noteq> ''SUPER_FLEX''"

definition ownKeysPlain :: "'a object \<Rightarrow> bool" where
  "ownKeysPlain obj \<longleftrightarrow> list_all (\<lambda>k. \<not> inheritedName k) (map fst obj)"

text \<open>
  The array of a position group (empty when there is none), and the players of the pool
  that list a position among their eligible positions, in the order of the pool (once for
  every mention, as \<^verbatim>\<open>groupPlayersByPosition\<close> pushes them).
\<close>

definition groupOf :: "player list object \<Rightarrow> string \<Rightarrow> player list" where
  "groupOf g k = (case map_of g k of Some ps \<Rightarrow> ps | None \<Rightarrow> [])"

definition eligibleFor :: "string \<Rightarrow> player list \<Rightarrow> player list" where
  "eligibleFor pos pool =
     concat (map (\<lambda>p. map (\<lambda>k. p) (filter (\<lambda>k. k = pos) (eligiblePositions p))) pool)"

text \<open>
  The players not yet used; and of a list of candidates the one with the most projected
  points, the first such in the list when several have as many. \<open>firstBestAt\<close> says the
  same by position: everyone before has strictly fewer points, no one after has more.
\<close>

definition unusedOf :: "string set \<Rightarrow> player list \<Rightarrow> player list" where
  "unusedOf usedPlayers ps = filter (\<lambda>p. playerId p \<notin> usedPlayers) ps"

definition firstBest :: "player list \<Rightarrow> player option" where
  "firstBest cands =
     find (\<lambda>p. \<forall>q \<in> set cands. projectedPoints q \<le> projectedPoints p) cands"

definition firstBestAt :: "player list \<Rightarrow> player \<Rightarrow> bool" where
  "firstBestAt cands r \<longleftrightarrow>
     (\<exists>ys zs. cands = ys @ r # zs
        \<and> (\<forall>q \<in> set ys. projectedPoints q < projectedPoints r)
        \<and> (\<forall>q \<in> set zs. projectedPoints q \<le> projectedPoints r))"

text \<open>
  The players that a roster position looks at, in the order in which it looks at them:
  the groups RB, WR, TE for FLEX, every group in the order of \<^verbatim>\<open>Object.keys\<close> for
  SUPER_FLEX, the group of the position's own name otherwise.
\<close>

definition candidates :: "player list object \<Rightarrow> string \<Rightarrow> player list" where
  "candidates g pos =
     (if pos = ''FLEX'' then concat (map (groupOf g) flexEligible)
      else if pos = ''SUPER_FLEX'' then concat (map (groupOf g) (objectKeys g))
      else groupOf g pos)"




definition scenarioMalformed_players :: "player list" where
  "scenarioMalformed_players = [activePlayer ''QB1'' ''QB'' (- 5)]"

definition scenarioMalformed_slots :: "string list" where
  "scenarioMalformed_slots = [''XYZ'', ''QB'', ''TE'']"

definition tie_players :: "player list" where
  "tie_players = [activePlayer ''W1'' ''WR'' 10, activePlayer ''R1'' ''RB'' 10]"

definition tie3_players :: "player list" where
  "tie3_players =
     [activePlayer ''R0'' ''RB'' 5, activePlayer ''W1'' ''WR'' 10, activePlayer ''R1'' ''RB'' 10]"



text \<open>
  Another sort that meets the contract: the ascending insertion sort of the reversed
  array, reversed.
\<close>

definition reverseSort :: "player list \<Rightarrow> player list" where
  "reverseSort ps = rev (sort_key projectedPoints (rev ps))"

section \<open>Loops and records\<close>

lemma withLineupPosition_simps:
  "playerId (withLineupPosition p pos) = playerId p"
  "projectedPoints (withLineupPosition p pos) = projectedPoints p"
  "lineupPosition (withLineupPosition p pos) = pos"
  by (simp_all add: withLineupPosition_def player.defs starter.defs)

lemma forEach_invariant:
  assumes "forEach f xs s = Inr s'" and "I s"
    and "\<And>t x t'. x \<in> set xs \<Longrightarrow> I t \<Longrightarrow> f t x = Inr t' \<Longrightarrow> I t'"
  shows "I s'"
  using assms
proof (induction xs arbitrary: s)
  case Nil
  then show ?case by simp
next
  case (Cons x xs)
  from Cons.prems(1) obtain t where t: "f s x = Inr t" and rest: "forEach f xs t = Inr s'"
    by (auto split: sum.splits)
  have "I t" using Cons.prems(3) [of x s t] Cons.prems(2) t by simp
  moreover have "\<And>u y u'. y \<in> set xs \<Longrightarrow> I u \<Longrightarrow> f u y = Inr u' \<Longrightarrow> I u'"
    using Cons.prems(3) by (meson list.set_intros(2))
  ultimately show ?case using Cons.IH [OF rest] by blast
qed

section \<open>The sort is determined by its contract\<close>

lemma sortContract_arraySort: "sortContract arraySort"
  unfolding sortContract_def arraySort_def
proof (intro allI conjI)
  fix ps :: "player list" and v
  show "mset (sort_key (\<lambda>p. - projectedPoints p) ps) = mset ps" by simp
  show "sorted (map (\<lambda>p. - projectedPoints p) (sort_key (\<lambda>p. - projectedPoints p) ps))"
    by (rule sorted_sort_key)
  have "filter (\<lambda>p. - projectedPoints p = - v) (sort_key (\<lambda>p. - projectedPoints p) ps)
        = filter (\<lambda>p. - projectedPoints p = - v) ps"
    by (rule sort_key_stable)
  then show "filter (\<lambda>p. projectedPoints p = v) (sort_key (\<lambda>p. - projectedPoints p) ps)
        = filter (\<lambda>p. projectedPoints p = v) ps"
    by simp
qed

lemma sortContract_unique:
  assumes "sortContract srt"
  shows "srt ps = arraySort ps"
proof -
  from assms have m: "mset (srt ps) = mset ps"
    and s: "sorted (map (\<lambda>p. - projectedPoints p) (srt ps))"
    and st: "\<And>v. filter (\<lambda>p. projectedPoints p = v) (srt ps)
                = filter (\<lambda>p. projectedPoints p = v) ps"
    by (simp_all add: sortContract_def)
  have "sort_key (\<lambda>p. - projectedPoints p) ps = srt ps"
  proof (rule properties_for_sort_key [OF m _ s])
    fix k
    have e: "(\<lambda>x. - projectedPoints k = - projectedPoints x)
          = (\<lambda>p. projectedPoints p = projectedPoints k)" by auto
    show "filter (\<lambda>x. - projectedPoints k = - projectedPoints x) (srt ps)
          = filter (\<lambda>x. - projectedPoints k = - projectedPoints x) ps"
      unfolding e by (rule st)
  qed
  then show ?thesis by (simp add: arraySort_def)
qed

lemma sortContract_eq: "sortContract srt \<Longrightarrow> srt = arraySort"
  by (rule ext) (rule sortContract_unique)

lemma sortContract_reverseSort: "sortContract reverseSort"
  unfolding sortContract_def reverseSort_def
proof (intro allI conjI)
  fix ps :: "player list" and v
  show "mset (rev (sort_key projectedPoints (rev ps))) = mset ps" by simp
  have "sorted (map projectedPoints (sort_key projectedPoints (rev ps)))"
    by (rule sorted_sort_key)
  then show "sorted (map (\<lambda>p. - projectedPoints p) (rev (sort_key projectedPoints (rev ps))))"
    by (simp add: sorted_wrt_map sorted_wrt_rev)
  have "filter (\<lambda>p. projectedPoints p = v) (sort_key projectedPoints (rev ps))
        = filter (\<lambda>p. projectedPoints p = v) (rev ps)"
    by (rule sort_key_stable)
  then show "filter (\<lambda>p. projectedPoints p = v) (rev (sort_key projectedPoints (rev ps)))
        = filter (\<lambda>p. projectedPoints p = v) ps"
    by (simp add: rev_filter [symmetric])
qed

section \<open>No player is used twice\<close>

lemma scanPlayers_unused:
  "unusedBest u b \<Longrightarrow> unusedBest u (scanPlayers u ps b)"
  by (induction ps arbitrary: b) (auto simp: unusedBest_def better_def)

lemma find_unused:
  "unusedBest u (find (\<lambda>p. playerId p \<notin> u) ps)"
  by (auto simp: unusedBest_def find_Some_iff split: option.splits)

lemma bestPlayerFor_unused:
  assumes "bestPlayerFor g u pos = Inr b"
  shows "unusedBest u b"
proof -
  have none: "unusedBest u None" by (simp add: unusedBest_def)
  consider (flex) "pos = ''FLEX''" | (super) "pos \<noteq> ''FLEX''" "pos = ''SUPER_FLEX''"
    | (fixed) "pos \<noteq> ''FLEX''" "pos \<noteq> ''SUPER_FLEX''" by blast
  then show ?thesis
  proof cases
    case flex
    with assms have "forEach (\<lambda>bestPlayer k.
            case getProp g k of
              Undefined \<Rightarrow> Inr bestPlayer
            | Own ps \<Rightarrow> Inr (scanPlayers u ps bestPlayer)
            | Inherited \<Rightarrow> Inl TypeError) flexEligible None = Inr b"
      by (simp add: bestPlayerFor_def)
    then show ?thesis
      by (rule forEach_invariant [where I = "unusedBest u"])
         (auto simp: none scanPlayers_unused split: property.splits)
  next
    case super
    with assms have "forEach (\<lambda>bestPlayer k.
            case getProp g k of
              Own ps \<Rightarrow> Inr (scanPlayers u ps bestPlayer)
            | _ \<Rightarrow> Inl TypeError) (objectKeys g) None = Inr b"
      by (simp add: bestPlayerFor_def)
    then show ?thesis
      by (rule forEach_invariant [where I = "unusedBest u"])
         (auto simp: none scanPlayers_unused split: property.splits)
  next
    case fixed
    with assms show ?thesis
      by (auto simp: bestPlayerFor_def none find_unused split: property.splits)
  qed
qed

lemma fillSlot_cases:
  assumes "fillSlot g st pos = Inr st'"
  shows "st' = st \<or> (pos \<noteq> ''BN'' \<and> (\<exists>p. bestPlayerFor g (snd st) pos = Inr (Some p)
           \<and> st' = (fst st @ [withLineupPosition p pos], insert (playerId p) (snd st))))"
  using assms by (auto simp: fillSlot_def split: if_splits sum.splits option.splits)

lemma fillSlot_inv:
  assumes "fillSlot g st pos = Inr st'" and "lineupInv st"
  shows "lineupInv st'"
  using fillSlot_cases [OF assms(1)]
proof
  assume "st' = st"
  with assms(2) show ?thesis by simp
next
  assume "pos \<noteq> ''BN'' \<and> (\<exists>p. bestPlayerFor g (snd st) pos = Inr (Some p)
           \<and> st' = (fst st @ [withLineupPosition p pos], insert (playerId p) (snd st)))"
  then obtain p where b: "bestPlayerFor g (snd st) pos = Inr (Some p)"
    and st': "st' = (fst st @ [withLineupPosition p pos], insert (playerId p) (snd st))"
    by blast
  from bestPlayerFor_unused [OF b] have "playerId p \<notin> snd st"
    by (simp add: unusedBest_def)
  with st' assms(2) show ?thesis
    by (auto simp: lineupInv_def withLineupPosition_simps)
qed

lemma optimizeLineup_distinct:
  assumes "optimizeLineup g slots = Inr lineup"
  shows "distinct (map playerId lineup)"
proof -
  from assms obtain st where st: "forEach (fillSlot g) slots ([], {}) = Inr st"
    and l: "lineup = fst st"
    by (auto simp: optimizeLineup_def split: sum.splits)
  have "lineupInv ([], {})" by (simp add: lineupInv_def)
  with st have "lineupInv st"
  proof (rule forEach_invariant)
    fix t x t' assume "lineupInv t" "fillSlot g t x = Inr t'"
    then show "lineupInv t'" by (rule fillSlot_inv [rotated])
  qed
  with l show ?thesis by (simp add: lineupInv_def)
qed

section \<open>The lineup follows the roster positions\<close>

lemma forEach_fillSlot_subseq:
  assumes "forEach (fillSlot g) slots st = Inr st'"
  shows "\<exists>ext. fst st' = fst st @ ext \<and> subseq (map lineupPosition ext) (nonBench slots)"
  using assms
proof (induction slots arbitrary: st)
  case Nil
  then show ?case by (simp add: nonBench_def)
next
  case (Cons pos slots)
  from Cons.prems obtain t where t: "fillSlot g st pos = Inr t"
    and rest: "forEach (fillSlot g) slots t = Inr st'"
    by (auto split: sum.splits)
  from Cons.IH [OF rest] obtain ext where ext: "fst st' = fst t @ ext"
    "subseq (map lineupPosition ext) (nonBench slots)" by blast
  from fillSlot_cases [OF t] show ?case
  proof
    assume "t = st"
    with ext show ?thesis by (auto simp: nonBench_def intro: subseq_Cons')
  next
    assume "pos \<noteq> ''BN'' \<and> (\<exists>p. bestPlayerFor g (snd st) pos = Inr (Some p)
           \<and> t = (fst st @ [withLineupPosition p pos], insert (playerId p) (snd st)))"
    then obtain p where "pos \<noteq> ''BN''"
      "t = (fst st @ [withLineupPosition p pos], insert (playerId p) (snd st))"
      by blast
    with ext have "fst st' = fst st @ (withLineupPosition p pos # ext)"
      "subseq (map lineupPosition (withLineupPosition p pos # ext)) (nonBench (pos # slots))"
      by (simp_all add: withLineupPosition_simps nonBench_def)
    then show ?thesis by blast
  qed
qed

lemma optimizeLineup_subseq:
  assumes "optimizeLineup g slots = Inr lineup"
  shows "subseq (map lineupPosition lineup) (nonBench slots)"
proof -
  from assms obtain st where st: "forEach (fillSlot g) slots ([], {}) = Inr st"
    and l: "lineup = fst st"
    by (auto simp: optimizeLineup_def split: sum.splits)
  from forEach_fillSlot_subseq [OF st] l show ?thesis by simp
qed

lemma optimizeLineup_length:
  assumes "optimizeLineup g slots = Inr lineup"
  shows "length lineup \<le> length (nonBench slots)"
  using list_emb_length [OF optimizeLineup_subseq [OF assms]] by simp

lemma assign_optimizeLineup:
  assumes "assign srt pool slots = Inr lineup"
  shows "\<exists>g. groupPlayersByPosition srt pool = Inr g \<and> optimizeLineup g slots = Inr lineup"
  using assms by (auto simp: assign_def split: sum.splits)

section \<open>The diff\<close>

lemma changeAt_Some:
  assumes "changeAt n2s parse optimal players ic = Some c"
  shows "differs optimal ic \<and> (change_position c, current_playerId c) = ic"
  using assms by (cases ic) (auto simp: changeAt_def differs_def Let_def split: if_splits)

lemma changeAt_None:
  assumes "changeAt n2s parse optimal players ic = None"
  shows "\<not> differs optimal ic"
  using assms by (cases ic) (auto simp: changeAt_def differs_def Let_def split: if_splits)

lemma map_filter_changeAt:
  "map (\<lambda>c. (change_position c, current_playerId c))
     (List.map_filter (changeAt n2s parse optimal players) ics)
   = filter (differs optimal) ics"
proof (induction ics)
  case Nil
  then show ?case by simp
next
  case (Cons ic ics)
  show ?case
  proof (cases "changeAt n2s parse optimal players ic")
    case None
    with changeAt_None [OF None] Cons.IH show ?thesis by simp
  next
    case (Some c)
    with changeAt_Some [OF Some] Cons.IH show ?thesis by simp
  qed
qed

section \<open>The loop fails exactly on inherited names\<close>

lemma forEach_success:
  assumes "I s"
    and "\<And>t x. x \<in> set xs \<Longrightarrow> I t \<Longrightarrow> \<exists>t'. f t x = Inr t' \<and> I t'"
  shows "\<exists>s'. forEach f xs s = Inr s' \<and> I s'"
  using assms
proof (induction xs arbitrary: s)
  case Nil
  then show ?case by simp
next
  case (Cons x xs)
  from Cons.prems(2) [of x s] Cons.prems(1) obtain t where t: "f s x = Inr t" "I t" by auto
  have "\<exists>s'. forEach f xs t = Inr s' \<and> I s'"
  proof (rule Cons.IH [OF t(2)])
    fix u y assume "y \<in> set xs" "I u"
    then show "\<exists>t'. f u y = Inr t' \<and> I t'" using Cons.prems(2) [of y u] by simp
  qed
  with t(1) show ?case by simp
qed

lemma forEach_failure:
  assumes "I s" and "x \<in> set xs"
    and "\<And>t. I t \<Longrightarrow> \<exists>e. f t x = Inl e"
    and "\<And>t y t'. y \<in> set xs \<Longrightarrow> I t \<Longrightarrow> f t y = Inr t' \<Longrightarrow> I t'"
  shows "\<exists>e. forEach f xs s = Inl e"
  using assms
proof (induction xs arbitrary: s)
  case Nil
  then show ?case by simp
next
  case (Cons y ys)
  show ?case
  proof (cases "f s y")
    case (Inl e)
    then show ?thesis by simp
  next
    case (Inr t)
    with Cons.prems(3) [OF Cons.prems(1)] have "x \<noteq> y" by auto
    with Cons.prems(2) have x: "x \<in> set ys" by simp
    have t: "I t" using Cons.prems(4) [of y s t] Cons.prems(1) Inr by simp
    have "\<exists>e. forEach f ys t = Inl e"
    proof (rule Cons.IH [OF t x Cons.prems(3)])
      fix u z u' assume "z \<in> set ys" "I u" "f u z = Inr u'"
      then show "I u'" using Cons.prems(4) [of z u u'] by simp
    qed
    with Inr show ?thesis by simp
  qed
qed

lemma forEach_fails_iff:
  assumes "I s"
    and "\<And>t x t'. x \<in> set xs \<Longrightarrow> I t \<Longrightarrow> f t x = Inr t' \<Longrightarrow> I t'"
    and "\<And>t x. x \<in> set xs \<Longrightarrow> I t \<Longrightarrow> (\<exists>e. f t x = Inl e) \<longleftrightarrow> bad x"
  shows "(\<exists>e. forEach f xs s = Inl e) \<longleftrightarrow> (\<exists>x \<in> set xs. bad x)"
proof
  assume l: "\<exists>e. forEach f xs s = Inl e"
  show "\<exists>x \<in> set xs. bad x"
  proof (rule ccontr)
    assume n: "\<not> (\<exists>x \<in> set xs. bad x)"
    have "\<exists>s'. forEach f xs s = Inr s' \<and> I s'"
    proof (rule forEach_success [where I = I and s = s])
      show "I s" by (rule assms(1))
    next
      fix t x assume x: "x \<in> set xs" and t: "I t"
      with n assms(3) have "\<not> (\<exists>e. f t x = Inl e)" by blast
      then obtain t' where "f t x = Inr t'" by (cases "f t x") auto
      with assms(2) [OF x t] show "\<exists>t'. f t x = Inr t' \<and> I t'" by blast
    qed
    with l show False by auto
  qed
next
  assume "\<exists>x \<in> set xs. bad x"
  then obtain x where x: "x \<in> set xs" "bad x" by blast
  show "\<exists>e. forEach f xs s = Inl e"
  proof (rule forEach_failure [where I = I and s = s and x = x])
    show "I s" by (rule assms(1))
    show "x \<in> set xs" by (rule x(1))
    show "\<exists>e. f t x = Inl e" if "I t" for t using assms(3) [OF x(1) that] x(2) by simp
    show "I t'" if "y \<in> set xs" "I t" "f t y = Inr t'" for t y t'
      using assms(2) that by blast
  qed
qed

lemma set_objectKeys: "set (objectKeys obj) = fst ` set obj"
  by (auto simp: objectKeys_def)

lemma getProp_own_key:
  assumes "k \<in> fst ` set obj"
  shows "\<exists>v. getProp obj k = Own v"
proof -
  from assms have "map_of obj k \<noteq> None" by (simp add: map_of_eq_None_iff)
  then show ?thesis by (auto simp: getProp_def)
qed

lemma getProp_Inherited_iff:
  "getProp obj k = Inherited \<longleftrightarrow> k \<notin> fst ` set obj \<and> inheritedName k"
proof (cases "map_of obj k")
  case None
  then have "k \<notin> fst ` set obj" by (simp add: map_of_eq_None_iff)
  with None show ?thesis by (simp add: getProp_def inheritedName_def)
next
  case (Some v)
  then have "map_of obj k \<noteq> None" by simp
  then have "k \<in> fst ` set obj" by (simp add: map_of_eq_None_iff)
  with Some show ?thesis by (simp add: getProp_def)
qed

lemma bestPlayerFor_FLEX: "\<exists>b. bestPlayerFor g u ''FLEX'' = Inr b"
  by (simp add: bestPlayerFor_def flexEligible_def getProp_def objectPrototypeKeys_def
      split: option.splits)

lemma bestPlayerFor_SUPER_FLEX: "\<exists>b. bestPlayerFor g u ''SUPER_FLEX'' = Inr b"
proof -
  have "\<exists>b. forEach (\<lambda>bestPlayer k.
            case getProp g k of
              Own ps \<Rightarrow> Inr (scanPlayers u ps bestPlayer)
            | _ \<Rightarrow> Inl TypeError) (objectKeys g) None = Inr b \<and> True"
  proof (rule forEach_success [where I = "\<lambda>b. True"])
    fix t k assume "k \<in> set (objectKeys g)"
    then obtain ps where "getProp g k = Own ps"
      using getProp_own_key [of k g] by (auto simp: set_objectKeys)
    then show "\<exists>t'. (case getProp g k of
              Own ps \<Rightarrow> Inr (scanPlayers u ps t)
            | _ \<Rightarrow> Inl TypeError) = Inr t' \<and> True" by simp
  qed simp
  then show ?thesis by (simp add: bestPlayerFor_def)
qed

lemma bestPlayerFor_fails_iff:
  "(\<exists>e. bestPlayerFor g u pos = Inl e)
   \<longleftrightarrow> pos \<noteq> ''FLEX'' \<and> pos \<noteq> ''SUPER_FLEX'' \<and> getProp g pos = Inherited"
proof (cases "pos = ''FLEX'' \<or> pos = ''SUPER_FLEX''")
  case True
  then show ?thesis using bestPlayerFor_FLEX [of g u] bestPlayerFor_SUPER_FLEX [of g u] by auto
next
  case False
  then show ?thesis by (auto simp: bestPlayerFor_def split: property.splits)
qed

lemma fillSlot_fails_iff:
  "(\<exists>e. fillSlot g st pos = Inl e) \<longleftrightarrow> fixedSlot pos \<and> getProp g pos = Inherited"
proof (cases "pos = ''BN''")
  case True
  then show ?thesis by (simp add: fillSlot_def fixedSlot_def)
next
  case False
  have "(\<exists>e. fillSlot g st pos = Inl e) \<longleftrightarrow> (\<exists>e. bestPlayerFor g (snd st) pos = Inl e)"
    using False by (auto simp: fillSlot_def split: sum.splits option.splits)
  with False show ?thesis by (auto simp: bestPlayerFor_fails_iff fixedSlot_def)
qed

lemma optimizeLineup_fails_iff:
  "(\<exists>e. optimizeLineup g slots = Inl e)
   \<longleftrightarrow> (\<exists>pos \<in> set slots. fixedSlot pos \<and> getProp g pos = Inherited)"
proof
  assume "\<exists>e. optimizeLineup g slots = Inl e"
  then have f: "\<not> (\<exists>st. forEach (fillSlot g) slots ([], {}) = Inr st \<and> True)"
    by (auto simp: optimizeLineup_def split: sum.splits)
  show "\<exists>pos \<in> set slots. fixedSlot pos \<and> getProp g pos = Inherited"
  proof (rule ccontr)
    assume n: "\<not> (\<exists>pos \<in> set slots. fixedSlot pos \<and> getProp g pos = Inherited)"
    have "\<exists>st. forEach (fillSlot g) slots ([], {}) = Inr st \<and> True"
    proof (rule forEach_success [where I = "\<lambda>st. True"])
      fix t pos assume "pos \<in> set slots"
      with n have "\<not> (\<exists>e. fillSlot g t pos = Inl e)" by (simp add: fillSlot_fails_iff)
      then show "\<exists>t'. fillSlot g t pos = Inr t' \<and> True" by (cases "fillSlot g t pos") auto
    qed simp
    with f show False by simp
  qed
next
  assume "\<exists>pos \<in> set slots. fixedSlot pos \<and> getProp g pos = Inherited"
  then obtain pos where pos: "pos \<in> set slots" "fixedSlot pos \<and> getProp g pos = Inherited"
    by blast
  have "\<exists>e. forEach (fillSlot g) slots ([], {}) = Inl e"
  proof (rule forEach_failure [where I = "\<lambda>st. True" and x = pos])
    show "pos \<in> set slots" by (rule pos(1))
    show "\<exists>e. fillSlot g t pos = Inl e" for t using pos(2) by (simp add: fillSlot_fails_iff)
  qed simp_all
  then show "\<exists>e. optimizeLineup g slots = Inl e" by (auto simp: optimizeLineup_def)
qed

lemma pushGrouped_plain:
  assumes "ownKeysPlain g"
  shows "(\<exists>e. pushGrouped p g k = Inl e) \<longleftrightarrow> inheritedName k"
    and "pushGrouped p g k = Inr g' \<Longrightarrow> ownKeysPlain g'"
proof -
  from assms have own: "\<And>j. j \<in> fst ` set g \<Longrightarrow> \<not> inheritedName j"
    by (auto simp: ownKeysPlain_def list_all_iff)
  have "(\<exists>e. pushGrouped p g k = Inl e) \<longleftrightarrow> getProp g k = Inherited"
    by (auto simp: pushGrouped_def split: property.splits)
  also have "\<dots> \<longleftrightarrow> inheritedName k"
    using own [of k] by (auto simp: getProp_Inherited_iff)
  finally show "(\<exists>e. pushGrouped p g k = Inl e) \<longleftrightarrow> inheritedName k" .
  assume g': "pushGrouped p g k = Inr g'"
  then have k: "getProp g k \<noteq> Inherited" by (auto simp: pushGrouped_def split: property.splits)
  have "fst ` set g' \<subseteq> insert k (fst ` set g)"
  proof (cases "getProp g k")
    case Undefined
    with g' have "g' = g @ [(k, [p])]" by (simp add: pushGrouped_def)
    then show ?thesis by auto
  next
    case Inherited
    with k show ?thesis by simp
  next
    case (Own ps)
    with g' have "g' = AList.update k (ps @ [p]) g" by (simp add: pushGrouped_def)
    then show ?thesis by (simp add: AList.dom_update)
  qed
  moreover have "\<not> inheritedName k" if "k \<notin> fst ` set g"
    using k that by (simp add: getProp_Inherited_iff)
  ultimately show "ownKeysPlain g'" using own
    by (auto simp: ownKeysPlain_def list_all_iff)
qed

lemma pushAll_fails_iff:
  assumes "ownKeysPlain g"
  shows "(\<exists>e. forEach (pushGrouped p) ks g = Inl e) \<longleftrightarrow> (\<exists>k \<in> set ks. inheritedName k)"
  using assms
  by (rule forEach_fails_iff [where I = ownKeysPlain])
     (simp_all add: pushGrouped_plain)

lemma pushAll_plain:
  assumes "forEach (pushGrouped p) ks g = Inr g'" and "ownKeysPlain g"
  shows "ownKeysPlain g'"
  using assms
  by (rule forEach_invariant [where I = ownKeysPlain]) (simp add: pushGrouped_plain)

lemma collectGroups_fails_iff:
  "(\<exists>e. collectGroups pool = Inl e)
   \<longleftrightarrow> (\<exists>p \<in> set pool. \<exists>k \<in> set (eligiblePositions p). inheritedName k)"
  unfolding collectGroups_def
proof (rule forEach_fails_iff [where I = ownKeysPlain])
  show "ownKeysPlain []" by (simp add: ownKeysPlain_def)
  show "ownKeysPlain t'"
    if "ownKeysPlain t" "forEach (pushGrouped x) (eligiblePositions x) t = Inr t'" for t x t'
    using that(2,1) by (rule pushAll_plain)
  show "(\<exists>e. forEach (pushGrouped x) (eligiblePositions x) t = Inl e)
        \<longleftrightarrow> (\<exists>k \<in> set (eligiblePositions x). inheritedName k)"
    if "ownKeysPlain t" for t x
    using that by (rule pushAll_fails_iff)
qed

lemma collectGroups_plain:
  assumes "collectGroups pool = Inr g"
  shows "ownKeysPlain g"
  using assms unfolding collectGroups_def
proof (rule forEach_invariant [where I = ownKeysPlain])
  show "ownKeysPlain []" by (simp add: ownKeysPlain_def)
  show "ownKeysPlain t'"
    if "ownKeysPlain t" "forEach (pushGrouped x) (eligiblePositions x) t = Inr t'" for t x t'
    using that(2,1) by (rule pushAll_plain)
qed

lemma groupPlayersByPosition_fails_iff:
  "(\<exists>e. groupPlayersByPosition srt pool = Inl e)
   \<longleftrightarrow> (\<exists>p \<in> set pool. \<exists>k \<in> set (eligiblePositions p). inheritedName k)"
proof -
  have "(\<exists>e. groupPlayersByPosition srt pool = Inl e) \<longleftrightarrow> (\<exists>e. collectGroups pool = Inl e)"
    by (auto simp: groupPlayersByPosition_def split: sum.splits)
  then show ?thesis by (simp add: collectGroups_fails_iff)
qed

lemma groupPlayersByPosition_plain:
  assumes "groupPlayersByPosition srt pool = Inr g"
  shows "ownKeysPlain g"
proof -
  from assms obtain raw where raw: "collectGroups pool = Inr raw"
    and g: "g = map (\<lambda>(pos, ps). (pos, srt ps)) raw"
    by (auto simp: groupPlayersByPosition_def split: sum.splits)
  have "map fst g = map fst raw" unfolding g by (induction raw) auto
  with collectGroups_plain [OF raw] show ?thesis by (simp add: ownKeysPlain_def)
qed

lemma getProp_Inherited_plain:
  assumes "ownKeysPlain g"
  shows "getProp g k = Inherited \<longleftrightarrow> inheritedName k"
  using assms by (auto simp: getProp_Inherited_iff ownKeysPlain_def list_all_iff)

lemma assign_fails_exactly:
  "(\<exists>e. assign srt pool slots = Inl e)
   \<longleftrightarrow> (\<exists>p \<in> set pool. \<exists>k \<in> set (eligiblePositions p). inheritedName k)
       \<or> (\<exists>pos \<in> set slots. fixedSlot pos \<and> inheritedName pos)"
proof (cases "groupPlayersByPosition srt pool")
  case (Inl e)
  then have "\<exists>e. groupPlayersByPosition srt pool = Inl e" by blast
  then have "\<exists>p \<in> set pool. \<exists>k \<in> set (eligiblePositions p). inheritedName k"
    by (simp add: groupPlayersByPosition_fails_iff)
  with Inl show ?thesis by (simp add: assign_def)
next
  case (Inr g)
  then have "\<not> (\<exists>e. groupPlayersByPosition srt pool = Inl e)" by simp
  then have n: "\<not> (\<exists>p \<in> set pool. \<exists>k \<in> set (eligiblePositions p). inheritedName k)"
    by (simp add: groupPlayersByPosition_fails_iff)
  have "(\<exists>e. assign srt pool slots = Inl e) \<longleftrightarrow> (\<exists>e. optimizeLineup g slots = Inl e)"
    using Inr by (simp add: assign_def)
  also have "\<dots> \<longleftrightarrow> (\<exists>pos \<in> set slots. fixedSlot pos \<and> inheritedName pos)"
    by (simp add: optimizeLineup_fails_iff
        getProp_Inherited_plain [OF groupPlayersByPosition_plain [OF Inr]])
  finally show ?thesis using n by simp
qed

lemma forEach_error:
  assumes "forEach f xs s = Inl e"
  shows "\<exists>t x. x \<in> set xs \<and> f t x = Inl e"
  using assms
proof (induction xs arbitrary: s)
  case Nil
  then show ?case by simp
next
  case (Cons x xs)
  show ?case
  proof (cases "f s x")
    case (Inl e')
    with Cons.prems have "f s x = Inl e" by simp
    then show ?thesis by auto
  next
    case (Inr t)
    with Cons.prems have "forEach f xs t = Inl e" by simp
    from Cons.IH [OF this] show ?thesis by auto
  qed
qed

lemma pushGrouped_error: "pushGrouped p g k = Inl e \<Longrightarrow> e = TypeError"
  by (auto simp: pushGrouped_def split: property.splits)

lemma groupPlayersByPosition_error:
  assumes "groupPlayersByPosition srt pool = Inl e"
  shows "e = TypeError"
proof -
  from assms have "collectGroups pool = Inl e"
    by (auto simp: groupPlayersByPosition_def split: sum.splits)
  from forEach_error [OF this [unfolded collectGroups_def]]
  obtain t p where "forEach (pushGrouped p) (eligiblePositions p) t = Inl e" by blast
  from forEach_error [OF this] show ?thesis by (auto dest: pushGrouped_error)
qed

lemma bestPlayerFor_error:
  assumes "bestPlayerFor g u pos = Inl e"
  shows "e = TypeError"
proof -
  from assms have "\<exists>e. bestPlayerFor g u pos = Inl e" by blast
  then have "pos \<noteq> ''FLEX''" "pos \<noteq> ''SUPER_FLEX''" by (simp_all add: bestPlayerFor_fails_iff)
  with assms show ?thesis by (auto simp: bestPlayerFor_def split: property.splits)
qed

lemma optimizeLineup_error:
  assumes "optimizeLineup g slots = Inl e"
  shows "e = TypeError"
proof -
  from assms have "forEach (fillSlot g) slots ([], {}) = Inl e"
    by (auto simp: optimizeLineup_def split: sum.splits)
  from forEach_error [OF this] obtain t pos where "fillSlot g t pos = Inl e" by blast
  then have "bestPlayerFor g (snd t) pos = Inl e"
    by (auto simp: fillSlot_def split: if_splits sum.splits option.splits)
  then show ?thesis by (rule bestPlayerFor_error)
qed

lemma assign_error:
  assumes "assign srt pool slots = Inl e"
  shows "e = TypeError"
  using assms
  by (auto simp: assign_def split: sum.splits
      dest: groupPlayersByPosition_error optimizeLineup_error)

section \<open>The scan picks the first of the best\<close>

lemma firstBest_Nil: "firstBest [] = None"
  by (simp add: firstBest_def)

lemma find_append_Cons:
  assumes "\<forall>q \<in> set ys. \<not> P q" and "P r"
  shows "find P (ys @ r # zs) = Some r"
  using assms by (induction ys) auto

lemma firstBestAt_firstBest:
  assumes "firstBestAt cands r"
  shows "firstBest cands = Some r"
proof -
  from assms obtain ys zs where c: "cands = ys @ r # zs"
    and ys: "\<forall>q \<in> set ys. projectedPoints q < projectedPoints r"
    and zs: "\<forall>q \<in> set zs. projectedPoints q \<le> projectedPoints r"
    by (auto simp: firstBestAt_def)
  let ?P = "\<lambda>p. \<forall>q \<in> set cands. projectedPoints q \<le> projectedPoints p"
  have "?P r" using ys zs c by auto
  moreover have "\<forall>q \<in> set ys. \<not> ?P q"
  proof
    fix q assume "q \<in> set ys"
    with ys have "projectedPoints q < projectedPoints r" by simp
    moreover have "r \<in> set cands" using c by simp
    ultimately show "\<not> ?P q" by (auto simp: not_le)
  qed
  ultimately have "find ?P (ys @ r # zs) = Some r" by (rule find_append_Cons [rotated])
  then show ?thesis by (simp add: firstBest_def c)
qed

lemma scanPlayers_append:
  "scanPlayers u (xs @ ys) b = scanPlayers u ys (scanPlayers u xs b)"
  by (induction xs arbitrary: b) simp_all

lemma scanPlayers_spec:
  "(scanPlayers u xs None = None \<longrightarrow> unusedOf u xs = [])
   \<and> (\<forall>r. scanPlayers u xs None = Some r \<longrightarrow> firstBestAt (unusedOf u xs) r)"
proof (induction xs rule: rev_induct)
  case Nil
  then show ?case by (simp add: unusedOf_def)
next
  case (snoc x xs)
  let ?b = "scanPlayers u xs None"
  have step: "scanPlayers u (xs @ [x]) None = (if better u ?b x then Some x else ?b)"
    by (simp add: scanPlayers_append)
  show ?case
  proof (cases "playerId x \<in> u")
    case True
    then have "\<not> better u ?b x" by (simp add: better_def)
    moreover from True have "unusedOf u (xs @ [x]) = unusedOf u xs" by (simp add: unusedOf_def)
    ultimately show ?thesis using snoc step by simp
  next
    case False
    then have app: "unusedOf u (xs @ [x]) = unusedOf u xs @ [x]" by (simp add: unusedOf_def)
    show ?thesis
    proof (cases ?b)
      case None
      with snoc have e: "unusedOf u xs = []" by simp
      from None False have "better u ?b x" by (simp add: better_def)
      with step have "scanPlayers u (xs @ [x]) None = Some x" by simp
      moreover have "firstBestAt (unusedOf u (xs @ [x])) x"
        unfolding app e firstBestAt_def by (intro exI [of _ "[]"]) simp
      ultimately show ?thesis by simp
    next
      case (Some r)
      with snoc have "firstBestAt (unusedOf u xs) r" by simp
      then obtain ys zs where c: "unusedOf u xs = ys @ r # zs"
        and ys: "\<forall>q \<in> set ys. projectedPoints q < projectedPoints r"
        and zs: "\<forall>q \<in> set zs. projectedPoints q \<le> projectedPoints r"
        by (auto simp: firstBestAt_def)
      show ?thesis
      proof (cases "projectedPoints x > projectedPoints r")
        case True
        with Some False have "better u ?b x" by (simp add: better_def)
        with step have "scanPlayers u (xs @ [x]) None = Some x" by simp
        moreover have "firstBestAt (unusedOf u (xs @ [x])) x"
          unfolding app firstBestAt_def
        proof (intro exI conjI)
          show "unusedOf u xs @ [x] = unusedOf u xs @ x # []" by simp
          show "\<forall>q \<in> set (unusedOf u xs). projectedPoints q < projectedPoints x"
            using c ys zs True by auto
          show "\<forall>q \<in> set []. projectedPoints q \<le> projectedPoints x" by simp
        qed
        ultimately show ?thesis by simp
      next
        case notgt: False
        with Some have "\<not> better u ?b x" by (simp add: better_def)
        with step Some have "scanPlayers u (xs @ [x]) None = Some r" by simp
        moreover have "firstBestAt (unusedOf u (xs @ [x])) r"
          unfolding app firstBestAt_def
        proof (intro exI conjI)
          show "unusedOf u xs @ [x] = ys @ r # (zs @ [x])" using c by simp
          show "\<forall>q \<in> set ys. projectedPoints q < projectedPoints r" by (rule ys)
          show "\<forall>q \<in> set (zs @ [x]). projectedPoints q \<le> projectedPoints r"
            using zs notgt by auto
        qed
        ultimately show ?thesis by simp
      qed
    qed
  qed
qed

lemma scanPlayers_firstBest:
  "scanPlayers u xs None = firstBest (unusedOf u xs)"
proof (cases "scanPlayers u xs None")
  case None
  with scanPlayers_spec [of u xs] show ?thesis by (simp add: firstBest_Nil)
next
  case (Some r)
  with scanPlayers_spec [of u xs] have "firstBestAt (unusedOf u xs) r" by simp
  with Some show ?thesis by (simp add: firstBestAt_firstBest)
qed

lemma arraySort_Cons:
  "arraySort (y # ys) = insort_key (\<lambda>p. - projectedPoints p) y (arraySort ys)"
  by (simp add: arraySort_def)

lemma arraySort_Nil_iff: "arraySort ys = [] \<longleftrightarrow> ys = []"
proof -
  have "length (arraySort ys) = length ys" by (simp add: arraySort_def)
  then show ?thesis by (metis length_0_conv)
qed

lemma hd_insort_key:
  "hd (insort_key f y zs) = (if zs = [] \<or> f y \<le> f (hd zs) then y else hd zs)"
  by (cases zs) simp_all

lemma hd_arraySort:
  assumes "ys \<noteq> []"
  shows "firstBestAt ys (hd (arraySort ys))"
  using assms
proof (induction ys)
  case Nil
  then show ?case by simp
next
  case (Cons y ys)
  show ?case
  proof (cases "ys = []")
    case True
    have "firstBestAt [y] y"
      unfolding firstBestAt_def by (intro exI [of _ "[]"]) simp
    with True show ?thesis by (simp add: arraySort_def)
  next
    case False
    let ?h = "hd (arraySort ys)"
    from Cons.IH [OF False] obtain as bs where c: "ys = as @ ?h # bs"
      and as: "\<forall>q \<in> set as. projectedPoints q < projectedPoints ?h"
      and bs: "\<forall>q \<in> set bs. projectedPoints q \<le> projectedPoints ?h"
      by (auto simp: firstBestAt_def)
    have ne: "arraySort ys \<noteq> []" using False by (simp add: arraySort_Nil_iff)
    show ?thesis
    proof (cases "projectedPoints ?h \<le> projectedPoints y")
      case True
      with ne have "hd (arraySort (y # ys)) = y" by (simp add: arraySort_Cons hd_insort_key)
      moreover have "firstBestAt (y # ys) y"
        unfolding firstBestAt_def
      proof (intro exI conjI)
        show "y # ys = [] @ y # ys" by simp
        show "\<forall>q \<in> set []. projectedPoints q < projectedPoints y" by simp
        have "\<forall>q \<in> set ys. projectedPoints q \<le> projectedPoints ?h"
          by (subst c) (use as bs in auto)
        with True show "\<forall>q \<in> set ys. projectedPoints q \<le> projectedPoints y" by auto
      qed
      ultimately show ?thesis by simp
    next
      case lt: False
      with ne have "hd (arraySort (y # ys)) = ?h" by (simp add: arraySort_Cons hd_insort_key)
      moreover have "firstBestAt (y # ys) ?h"
        unfolding firstBestAt_def
      proof (intro exI conjI)
        show "y # ys = (y # as) @ ?h # bs" using c by simp
        show "\<forall>q \<in> set (y # as). projectedPoints q < projectedPoints ?h" using as lt by auto
        show "\<forall>q \<in> set bs. projectedPoints q \<le> projectedPoints ?h" by (rule bs)
      qed
      ultimately show ?thesis by simp
    qed
  qed
qed

lemma find_filter_hd:
  "find P xs = (case filter P xs of [] \<Rightarrow> None | x # _ \<Rightarrow> Some x)"
  by (induction xs) auto

lemma find_arraySort:
  "find (\<lambda>p. playerId p \<notin> u) (arraySort xs) = firstBest (unusedOf u xs)"
proof -
  have f: "filter (\<lambda>p. playerId p \<notin> u) (arraySort xs) = arraySort (unusedOf u xs)"
    by (simp add: arraySort_def unusedOf_def filter_sort)
  show ?thesis
  proof (cases "unusedOf u xs = []")
    case True
    then have "arraySort (unusedOf u xs) = []" by (simp add: arraySort_def)
    with True show ?thesis unfolding find_filter_hd f by (simp add: firstBest_Nil)
  next
    case False
    then obtain h t where ht: "arraySort (unusedOf u xs) = h # t"
      by (cases "arraySort (unusedOf u xs)") (simp_all add: arraySort_Nil_iff)
    with hd_arraySort [OF False] have "firstBestAt (unusedOf u xs) h" by simp
    then have "firstBest (unusedOf u xs) = Some h" by (rule firstBestAt_firstBest)
    with ht show ?thesis unfolding find_filter_hd f by simp
  qed
qed

lemma arraySort_sorted_stable:
  "sorted (map (\<lambda>p. - projectedPoints p) (arraySort ps))
   \<and> (\<forall>v. filter (\<lambda>p. projectedPoints p = v) (arraySort ps)
          = filter (\<lambda>p. projectedPoints p = v) ps)"
  using sortContract_arraySort by (simp add: sortContract_def)

section \<open>The position groups and the candidates of a roster position\<close>

lemma getProp_cases:
  "getProp g k = Inherited \<or> (getProp g k = Undefined \<and> groupOf g k = [])
   \<or> getProp g k = Own (groupOf g k)"
  by (auto simp: getProp_def groupOf_def split: option.splits)

lemma forEach_scan_flex:
  assumes "\<forall>k \<in> set ks. getProp g k \<noteq> Inherited"
  shows "forEach (\<lambda>bestPlayer k.
            case getProp g k of
              Undefined \<Rightarrow> Inr bestPlayer
            | Own ps \<Rightarrow> Inr (scanPlayers u ps bestPlayer)
            | Inherited \<Rightarrow> Inl TypeError) ks b
         = Inr (scanPlayers u (concat (map (groupOf g) ks)) b)"
  using assms
proof (induction ks arbitrary: b)
  case Nil
  then show ?case by simp
next
  case (Cons k ks)
  from Cons.prems have "getProp g k \<noteq> Inherited" by simp
  with getProp_cases [of g k]
  have "(case getProp g k of
              Undefined \<Rightarrow> Inr b
            | Own ps \<Rightarrow> Inr (scanPlayers u ps b)
            | Inherited \<Rightarrow> Inl TypeError) = Inr (scanPlayers u (groupOf g k) b)"
    by auto
  with Cons show ?case by (simp add: scanPlayers_append)
qed

lemma forEach_scan_super:
  assumes "\<forall>k \<in> set ks. \<exists>ps. getProp g k = Own ps"
  shows "forEach (\<lambda>bestPlayer k.
            case getProp g k of
              Own ps \<Rightarrow> Inr (scanPlayers u ps bestPlayer)
            | _ \<Rightarrow> Inl TypeError) ks b
         = Inr (scanPlayers u (concat (map (groupOf g) ks)) b)"
  using assms
proof (induction ks arbitrary: b)
  case Nil
  then show ?case by simp
next
  case (Cons k ks)
  from Cons.prems obtain ps where "getProp g k = Own ps" by auto
  with getProp_cases [of g k]
  have "(case getProp g k of
              Own ps \<Rightarrow> Inr (scanPlayers u ps b)
            | _ \<Rightarrow> Inl TypeError) = Inr (scanPlayers u (groupOf g k) b)"
    by auto
  with Cons show ?case by (simp add: scanPlayers_append)
qed

lemma bestPlayerFor_FLEX_eq:
  "bestPlayerFor g u ''FLEX'' = Inr (firstBest (unusedOf u (candidates g ''FLEX'')))"
proof -
  have "\<forall>k \<in> set flexEligible. getProp g k \<noteq> Inherited"
    by (simp add: flexEligible_def getProp_def objectPrototypeKeys_def split: option.splits)
  then show ?thesis
    by (simp add: bestPlayerFor_def forEach_scan_flex scanPlayers_firstBest candidates_def)
qed

lemma bestPlayerFor_SUPER_FLEX_eq:
  "bestPlayerFor g u ''SUPER_FLEX'' = Inr (firstBest (unusedOf u (candidates g ''SUPER_FLEX'')))"
proof -
  have "\<forall>k \<in> set (objectKeys g). \<exists>ps. getProp g k = Own ps"
    using getProp_own_key [of _ g] by (simp add: set_objectKeys)
  then show ?thesis
    by (simp add: bestPlayerFor_def forEach_scan_super scanPlayers_firstBest candidates_def)
qed

lemma groupOf_pushGrouped:
  assumes "pushGrouped p g k = Inr g'"
  shows "groupOf g' pos = groupOf g pos @ (if k = pos then [p] else [])"
proof (cases "getProp g k")
  case Undefined
  then have n: "map_of g k = None" by (auto simp: getProp_def split: option.splits if_splits)
  from Undefined assms have "g' = g @ [(k, [p])]" by (simp add: pushGrouped_def)
  with n show ?thesis by (auto simp: groupOf_def map_add_def split: option.splits)
next
  case Inherited
  with assms show ?thesis by (simp add: pushGrouped_def)
next
  case (Own ps)
  then have s: "map_of g k = Some ps" by (auto simp: getProp_def split: option.splits if_splits)
  from Own assms have "g' = AList.update k (ps @ [p]) g" by (simp add: pushGrouped_def)
  with s show ?thesis by (auto simp: groupOf_def AList.update_conv')
qed

lemma groupOf_pushAll:
  assumes "forEach (pushGrouped p) ks g = Inr g'"
  shows "groupOf g' pos = groupOf g pos @ map (\<lambda>k. p) (filter (\<lambda>k. k = pos) ks)"
  using assms
proof (induction ks arbitrary: g)
  case Nil
  then show ?case by simp
next
  case (Cons k ks)
  from Cons.prems obtain t where t: "pushGrouped p g k = Inr t"
    and rest: "forEach (pushGrouped p) ks t = Inr g'"
    by (auto split: sum.splits)
  from Cons.IH [OF rest] groupOf_pushGrouped [OF t, of pos] show ?case by simp
qed

lemma groupOf_collect:
  assumes "forEach (\<lambda>grouped p. forEach (pushGrouped p) (eligiblePositions p) grouped) pool g
             = Inr g'"
  shows "groupOf g' pos = groupOf g pos @ eligibleFor pos pool"
  using assms
proof (induction pool arbitrary: g)
  case Nil
  then show ?case by (simp add: eligibleFor_def)
next
  case (Cons p pool)
  from Cons.prems obtain t where t: "forEach (pushGrouped p) (eligiblePositions p) g = Inr t"
    and rest: "forEach (\<lambda>grouped p. forEach (pushGrouped p) (eligiblePositions p) grouped) pool t
             = Inr g'"
    by (auto split: sum.splits)
  from Cons.IH [OF rest] groupOf_pushAll [OF t, of pos] show ?case
    by (simp add: eligibleFor_def)
qed

lemma groupOf_collectGroups:
  assumes "collectGroups pool = Inr raw"
  shows "groupOf raw pos = eligibleFor pos pool"
  using groupOf_collect [OF assms [unfolded collectGroups_def], of pos]
  by (simp add: groupOf_def)

lemma groupOf_sorted:
  assumes "groupPlayersByPosition arraySort pool = Inr g"
  shows "groupOf g pos = arraySort (eligibleFor pos pool)"
proof -
  from assms obtain raw where raw: "collectGroups pool = Inr raw"
    and g: "g = map (\<lambda>(k, ps). (k, arraySort ps)) raw"
    by (auto simp: groupPlayersByPosition_def split: sum.splits)
  have "groupOf g pos = arraySort (groupOf raw pos)"
    unfolding g groupOf_def map_of_map by (simp add: arraySort_def split: option.splits)
  with groupOf_collectGroups [OF raw] show ?thesis by simp
qed

lemma bestPlayerFor_fixed_eq:
  assumes "groupPlayersByPosition arraySort pool = Inr g"
    and "pos \<noteq> ''FLEX''" and "pos \<noteq> ''SUPER_FLEX''" and "\<not> inheritedName pos"
  shows "bestPlayerFor g u pos = Inr (firstBest (unusedOf u (eligibleFor pos pool)))"
proof -
  from assms(4) have "getProp g pos \<noteq> Inherited" by (simp add: getProp_Inherited_iff)
  with getProp_cases [of g pos]
  have "bestPlayerFor g u pos = Inr (find (\<lambda>p. playerId p \<notin> u) (groupOf g pos))"
    using assms(2,3) by (auto simp: bestPlayerFor_def)
  then show ?thesis by (simp add: groupOf_sorted [OF assms(1)] find_arraySort)
qed













section \<open>Projections and rounding\<close>










section \<open>The scenarios, evaluated\<close>

lemma scenarioA_assign:
  "assign arraySort scenarioA_players scenarioA_slots =
     Inr [withLineupPosition (activePlayer ''QB1'' ''QB'' 20) ''QB'',
          withLineupPosition (activePlayer ''RB1'' ''RB'' 15) ''RB'',
          withLineupPosition (activePlayer ''RB2'' ''RB'' 12) ''RB'',
          withLineupPosition (activePlayer ''WR1'' ''WR'' 14) ''FLEX'']"
  by code_simp



lemma tie_groups:
  "groupPlayersByPosition arraySort tie_players =
     Inr [(''WR'', [activePlayer ''W1'' ''WR'' 10]), (''RB'', [activePlayer ''R1'' ''RB'' 10])]"
  by (simp add: groupPlayersByPosition_def collectGroups_def pushGrouped_def getProp_def
      objectPrototypeKeys_def arraySort_def tie_players_def activePlayer_def)



section \<open>The claims\<close>

text \<open>
  C1, at scenario D of the specification: the starters are QB2 and RB1, the optimized
  lineup is QB1 (20 points) and RB1 (15 points). The diff has one change, at index 0,
  from QB2 to QB1, as claimed; but its point gain is not the 10 that the projection of
  QB2 would give. The diff is not given the projections of the starters at all: what it
  subtracts is the sum of all property values of the record of QB2 in the player table, a
  string as soon as one of them is a name, so that the gain is \<^verbatim>\<open>NaN\<close>, whatever the
  engine's conversions between numbers and strings.
\<close>

theorem findLineupChanges_scenarioD:
  "findLineupChanges n2s parse scenarioD_starters scenarioD_optimal scenarioD_players =
     [\<lparr>change_position = 0, current_playerId = ''QB2'', current_name = ''QB2 Player'',
       suggested_playerId = ''QB1'', suggested_name = ''QB1'',
       projectedPointsGain = None\<rparr>]"
  by (simp add: findLineupChanges_def changeAt_def scenarioD_starters_def scenarioD_optimal_def
      scenarioD_players_def tableEntry_def getProp_def withLineupPosition_simps
      activePlayer_def withLineupPosition_def player.defs starter.defs
      sumValues_def jsPlus_def truthy_def toPrimitive_def isString_def toStringJs_def
      toNumber_def stringToNumber_def nonNumericChars_def)




text \<open>
  C3, as amended. With a sort that meets the contract of \<^verbatim>\<open>Array.prototype.sort\<close>,
  every position group holds the eligible players of the pool in descending order of
  projected points, players of equal points in the order of the pool. A roster position
  of its own name takes, of the unused eligible players, the one with the most points,
  and of several with as many the first of the pool. FLEX and SUPER_FLEX take the first
  of the best in the concatenation of their groups (RB, WR, TE for FLEX, the order of
  \<^verbatim>\<open>Object.keys\<close> for SUPER_FLEX): among players of equal points the earlier group wins,
  and the order of the pool decides only inside a group.
\<close>

theorem bestPlayerFor_tie_break:
  assumes "sortContract srt" and "groupPlayersByPosition srt pool = Inr g"
  shows "groupOf g pos = arraySort (eligibleFor pos pool)
     \<and> sorted (map (\<lambda>p. - projectedPoints p) (groupOf g pos))
     \<and> (\<forall>v. filter (\<lambda>p. projectedPoints p = v) (groupOf g pos)
            = filter (\<lambda>p. projectedPoints p = v) (eligibleFor pos pool))
     \<and> (fixedSlot pos \<and> \<not> inheritedName pos \<longrightarrow>
          bestPlayerFor g u pos = Inr (firstBest (unusedOf u (eligibleFor pos pool))))
     \<and> bestPlayerFor g u ''FLEX''
         = Inr (firstBest (unusedOf u
             (concat (map (\<lambda>k. arraySort (eligibleFor k pool)) flexEligible))))
     \<and> bestPlayerFor g u ''SUPER_FLEX''
         = Inr (firstBest (unusedOf u
             (concat (map (\<lambda>k. arraySort (eligibleFor k pool)) (objectKeys g)))))"
proof -
  have "srt = arraySort" using assms(1) by (rule sortContract_eq)
  with assms(2) have g: "groupPlayersByPosition arraySort pool = Inr g" by simp
  have grp: "groupOf g k = arraySort (eligibleFor k pool)" for k
    using g by (rule groupOf_sorted)
  then have grp': "groupOf g = (\<lambda>k. arraySort (eligibleFor k pool))" by (rule ext)
  have "fixedSlot pos \<and> \<not> inheritedName pos \<longrightarrow>
          bestPlayerFor g u pos = Inr (firstBest (unusedOf u (eligibleFor pos pool)))"
    using bestPlayerFor_fixed_eq [OF g, of pos u] by (simp add: fixedSlot_def)
  moreover have "bestPlayerFor g u ''FLEX''
         = Inr (firstBest (unusedOf u
             (concat (map (\<lambda>k. arraySort (eligibleFor k pool)) flexEligible))))"
    by (simp add: bestPlayerFor_FLEX_eq candidates_def grp')
  moreover have "bestPlayerFor g u ''SUPER_FLEX''
         = Inr (firstBest (unusedOf u
             (concat (map (\<lambda>k. arraySort (eligibleFor k pool)) (objectKeys g)))))"
    by (simp add: bestPlayerFor_SUPER_FLEX_eq candidates_def grp')
  ultimately show ?thesis using arraySort_sorted_stable [of "eligibleFor pos pool"]
    by (simp add: grp)
qed

text \<open>
  The instance of a wide receiver W1 and a running back R1 of equal points: the position
  WR takes W1, and FLEX takes R1.
\<close>

theorem bestPlayerFor_tie_break_witness:
  "sortContract arraySort
   \<and> groupPlayersByPosition arraySort tie_players =
     Inr [(''WR'', [activePlayer ''W1'' ''WR'' 10]), (''RB'', [activePlayer ''R1'' ''RB'' 10])]
   \<and> fixedSlot ''WR'' \<and> \<not> inheritedName ''WR''
   \<and> bestPlayerFor
       [(''WR'', [activePlayer ''W1'' ''WR'' 10]), (''RB'', [activePlayer ''R1'' ''RB'' 10])]
       {} ''WR'' = Inr (Some (activePlayer ''W1'' ''WR'' 10))
   \<and> bestPlayerFor
       [(''WR'', [activePlayer ''W1'' ''WR'' 10]), (''RB'', [activePlayer ''R1'' ''RB'' 10])]
       {} ''FLEX'' = Inr (Some (activePlayer ''R1'' ''RB'' 10))"
  using sortContract_arraySort tie_groups
    bestPlayerFor_tie_break [OF sortContract_arraySort tie_groups, of "''WR''" "{}"]
  by (simp add: fixedSlot_def inheritedName_def objectPrototypeKeys_def eligibleFor_def
      tie_players_def activePlayer_def unusedOf_def firstBest_def arraySort_def flexEligible_def)

text \<open>
  Against the claim as stated: W1 stands before R1 in the pool and has as many points,
  and both are eligible for FLEX, yet FLEX takes R1, whose group is scanned first. In the
  same way SUPER_FLEX takes R1 from the pool R0, W1, R1, whose group RB comes first in
  the order of the keys.
\<close>

theorem flex_tie_prefers_group_order:
  "tie_players = [activePlayer ''W1'' ''WR'' 10, activePlayer ''R1'' ''RB'' 10]
   \<and> projectedPoints (activePlayer ''W1'' ''WR'' 10) = projectedPoints (activePlayer ''R1'' ''RB'' 10)
   \<and> assign arraySort tie_players [''FLEX'']
       = Inr [withLineupPosition (activePlayer ''R1'' ''RB'' 10) ''FLEX'']
   \<and> tie3_players =
       [activePlayer ''R0'' ''RB'' 5, activePlayer ''W1'' ''WR'' 10, activePlayer ''R1'' ''RB'' 10]
   \<and> assign arraySort tie3_players [''SUPER_FLEX'']
       = Inr [withLineupPosition (activePlayer ''R1'' ''RB'' 10) ''SUPER_FLEX'']"
  by (simp add: assign_def groupPlayersByPosition_def collectGroups_def pushGrouped_def
      getProp_def objectPrototypeKeys_def arraySort_def optimizeLineup_def fillSlot_def
      bestPlayerFor_def flexEligible_def better_def tie_players_def tie3_players_def
      activePlayer_def objectKeys_def isArrayIndex_def digits_def)

text \<open>
  C4, as amended. The assignment validates nothing and raises no validation error. It
  fails exactly when an eligible position of a player of the pool, or a roster position
  looked up under its own name, names an inherited member of a plain object (such as
  \<^verbatim>\<open>constructor\<close>), and then with the \<^verbatim>\<open>TypeError\<close> of the call on that member, and
  without a lineup. So it does not fail for a roster position of an unknown kind (which
  is looked up as a position name and finds no group), for negative projected points, or
  because no eligible player remains.
\<close>

theorem assign_fails_iff:
  "((\<exists>e. assign srt pool slots = Inl e)
    \<longleftrightarrow> (\<exists>p \<in> set pool. \<exists>k \<in> set (eligiblePositions p). inheritedName k)
        \<or> (\<exists>pos \<in> set slots. fixedSlot pos \<and> inheritedName pos))
   \<and> (assign srt pool slots = Inl e \<longrightarrow> e = TypeError)"
proof
  show "(\<exists>e. assign srt pool slots = Inl e)
    \<longleftrightarrow> (\<exists>p \<in> set pool. \<exists>k \<in> set (eligiblePositions p). inheritedName k)
        \<or> (\<exists>pos \<in> set slots. fixedSlot pos \<and> inheritedName pos)"
    by (rule assign_fails_exactly)
  show "assign srt pool slots = Inl e \<longrightarrow> e = TypeError"
  proof
    assume "assign srt pool slots = Inl e"
    then show "e = TypeError" by (rule assign_error)
  qed
qed

text \<open>
  Two instances: the roster position \<^verbatim>\<open>constructor\<close> makes the assignment fail; the
  roster positions XYZ, QB, TE with a pool of one quarterback of -5 points do not.
\<close>

theorem assign_fails_iff_witness:
  "assign arraySort scenarioMalformed_players [''QB'', ''constructor''] = Inl TypeError
   \<and> \<not> (\<exists>e. assign arraySort scenarioMalformed_players scenarioMalformed_slots = Inl e)"
proof -
  note t1 = assign_fails_iff [of arraySort scenarioMalformed_players "[''QB'', ''constructor'']"]
  note t2 = assign_fails_iff [of arraySort scenarioMalformed_players scenarioMalformed_slots]
  have "\<exists>pos \<in> set [''QB'', ''constructor'']. fixedSlot pos \<and> inheritedName pos"
    by (simp add: inheritedName_def fixedSlot_def objectPrototypeKeys_def)
  with t1 obtain e where e: "assign arraySort scenarioMalformed_players [''QB'', ''constructor''] = Inl e"
    by blast
  with t1 [of e] have "assign arraySort scenarioMalformed_players [''QB'', ''constructor''] = Inl TypeError"
    by blast
  moreover have "\<not> ((\<exists>p \<in> set scenarioMalformed_players. \<exists>k \<in> set (eligiblePositions p). inheritedName k)
        \<or> (\<exists>pos \<in> set scenarioMalformed_slots. fixedSlot pos \<and> inheritedName pos))"
    by (simp add: scenarioMalformed_players_def scenarioMalformed_slots_def activePlayer_def
        inheritedName_def fixedSlot_def objectPrototypeKeys_def)
  with t2 have "\<not> (\<exists>e. assign arraySort scenarioMalformed_players scenarioMalformed_slots = Inl e)"
    by blast
  ultimately show ?thesis by blast
qed

text \<open>
  Against the claim as stated: the input is malformed in both ways the claim names (the
  roster position XYZ is of no known kind, and the only player has negative projected
  points), and the assignment returns a lineup.
\<close>

theorem assign_malformed_no_error:
  "assign arraySort scenarioMalformed_players scenarioMalformed_slots
     = Inr [withLineupPosition (activePlayer ''QB1'' ''QB'' (- 5)) ''QB'']
   \<and> projectedPoints (activePlayer ''QB1'' ''QB'' (- 5)) < 0
   \<and> ''XYZ'' \<in> set scenarioMalformed_slots"
  by (simp add: assign_def groupPlayersByPosition_def collectGroups_def pushGrouped_def
      getProp_def objectPrototypeKeys_def arraySort_def optimizeLineup_def fillSlot_def
      bestPlayerFor_def scenarioMalformed_players_def scenarioMalformed_slots_def
      activePlayer_def)






text \<open>
  C7. For every player pool and list of roster positions, no player identifier occurs
  twice in the lineup that the assignment returns, and the lineup has at most as many
  entries as there are non-bench roster positions. This holds for the lineup computed
  from any position groups (first part), and so for the one computed from a pool,
  whatever the sort (second part).
\<close>

theorem optimizeLineup_no_double_booking:
  "(optimizeLineup playersByPosition rosterPositions = Inr lineup \<longrightarrow>
      distinct (map playerId lineup) \<and> length lineup \<le> length (nonBench rosterPositions))
   \<and> (assign srt pool rosterPositions = Inr lineup \<longrightarrow>
      distinct (map playerId lineup) \<and> length lineup \<le> length (nonBench rosterPositions))"
proof (intro conjI impI)
  assume "optimizeLineup playersByPosition rosterPositions = Inr lineup"
  then show "distinct (map playerId lineup)"
    and "length lineup \<le> length (nonBench rosterPositions)"
    by (rule optimizeLineup_distinct, rule optimizeLineup_length)
next
  assume "assign srt pool rosterPositions = Inr lineup"
  from assign_optimizeLineup [OF this]
  obtain g where "optimizeLineup g rosterPositions = Inr lineup" by blast
  then show "distinct (map playerId lineup)"
    and "length lineup \<le> length (nonBench rosterPositions)"
    by (rule optimizeLineup_distinct, rule optimizeLineup_length)
qed

text \<open>The instance of scenario A.\<close>

theorem optimizeLineup_no_double_booking_witness:
  "assign arraySort scenarioA_players scenarioA_slots =
     Inr [withLineupPosition (activePlayer ''QB1'' ''QB'' 20) ''QB'',
          withLineupPosition (activePlayer ''RB1'' ''RB'' 15) ''RB'',
          withLineupPosition (activePlayer ''RB2'' ''RB'' 12) ''RB'',
          withLineupPosition (activePlayer ''WR1'' ''WR'' 14) ''FLEX'']
   \<and> distinct (map playerId
        [withLineupPosition (activePlayer ''QB1'' ''QB'' 20) ''QB'',
         withLineupPosition (activePlayer ''RB1'' ''RB'' 15) ''RB'',
         withLineupPosition (activePlayer ''RB2'' ''RB'' 12) ''RB'',
         withLineupPosition (activePlayer ''WR1'' ''WR'' 14) ''FLEX''])
   \<and> length [withLineupPosition (activePlayer ''QB1'' ''QB'' 20) ''QB'',
         withLineupPosition (activePlayer ''RB1'' ''RB'' 15) ''RB'',
         withLineupPosition (activePlayer ''RB2'' ''RB'' 12) ''RB'',
         withLineupPosition (activePlayer ''WR1'' ''WR'' 14) ''FLEX'']
       \<le> length (nonBench scenarioA_slots)"
  using scenarioA_assign
    optimizeLineup_no_double_booking [where srt = arraySort and pool = scenarioA_players
      and rosterPositions = scenarioA_slots and lineup =
      "[withLineupPosition (activePlayer ''QB1'' ''QB'' 20) ''QB'',
         withLineupPosition (activePlayer ''RB1'' ''RB'' 15) ''RB'',
         withLineupPosition (activePlayer ''RB2'' ''RB'' 12) ''RB'',
         withLineupPosition (activePlayer ''WR1'' ''WR'' 14) ''FLEX'']"]
  by blast

text \<open>
  C8. Two runs of the assignment on the same pool (in the same order) and the same
  roster positions give the same result, lineup or error, and so the same filled and
  unfilled positions; this is so even when the two runs use different implementations of
  \<^verbatim>\<open>Array.prototype.sort\<close>, as long as both meet its contract.
\<close>

theorem assign_deterministic:
  assumes "sortContract srt1" and "sortContract srt2"
    and "pool1 = pool2" and "slots1 = slots2"
  shows "assign srt1 pool1 slots1 = assign srt2 pool2 slots2"
proof -
  have "srt1 = arraySort" using assms(1) by (rule sortContract_eq)
  moreover have "srt2 = arraySort" using assms(2) by (rule sortContract_eq)
  ultimately
  show ?thesis using assms(3,4) by simp
qed

text \<open>
  The instance of scenario A, with the insertion sort in one run and the reversed
  ascending sort in the other.
\<close>

theorem assign_deterministic_witness:
  "sortContract arraySort \<and> sortContract reverseSort
   \<and> assign arraySort scenarioA_players scenarioA_slots
       = assign reverseSort scenarioA_players scenarioA_slots"
  by (intro conjI sortContract_arraySort sortContract_reverseSort
        assign_deterministic [OF sortContract_arraySort sortContract_reverseSort refl refl])

text \<open>
  C9. With the roster positions QB, RB, RB, FLEX, BN and the players QB1 (20), RB1 (15),
  RB2 (12), WR1 (14) and RB3 (8), the assignment puts QB1 at QB, RB1 and RB2 at the two
  RB positions and WR1 (not RB3) at FLEX, and the total of the lineup is 61; this is so
  with every sort that meets the contract of \<^verbatim>\<open>Array.prototype.sort\<close>.
\<close>

theorem scenarioA_lineup:
  assumes "sortContract srt"
  shows "\<exists>lineup. assign srt scenarioA_players scenarioA_slots = Inr lineup
           \<and> map (\<lambda>s. (lineupPosition s, playerId s, projectedPoints s)) lineup
               = [(''QB'', ''QB1'', 20), (''RB'', ''RB1'', 15), (''RB'', ''RB2'', 12),
                  (''FLEX'', ''WR1'', 14)]
           \<and> optimalProjection lineup = 61"
proof -
  have "srt = arraySort" using assms by (rule sortContract_eq)
  then have "assign srt scenarioA_players scenarioA_slots =
     Inr [withLineupPosition (activePlayer ''QB1'' ''QB'' 20) ''QB'',
          withLineupPosition (activePlayer ''RB1'' ''RB'' 15) ''RB'',
          withLineupPosition (activePlayer ''RB2'' ''RB'' 12) ''RB'',
          withLineupPosition (activePlayer ''WR1'' ''WR'' 14) ''FLEX'']"
    using scenarioA_assign by simp
  then show ?thesis
    by (simp add: withLineupPosition_simps activePlayer_def optimalProjection_def)
qed

text \<open>The instance of the insertion sort.\<close>

theorem scenarioA_lineup_witness:
  "sortContract arraySort
   \<and> (\<exists>lineup. assign arraySort scenarioA_players scenarioA_slots = Inr lineup
           \<and> map (\<lambda>s. (lineupPosition s, playerId s, projectedPoints s)) lineup
               = [(''QB'', ''QB1'', 20), (''RB'', ''RB1'', 15), (''RB'', ''RB2'', 12),
                  (''FLEX'', ''WR1'', 14)]
           \<and> optimalProjection lineup = 61)"
  using sortContract_arraySort scenarioA_lineup [OF sortContract_arraySort] by blast

text \<open>
  C10. The diff pushes a change at an index only when the optimized lineup has an entry
  at that index: the indices and current players of the changes are exactly the indexed
  starters for which the lineup has an entry that is another player, so every change has
  an index below the length of the lineup, and a starter at or beyond that length gives
  no change, whoever it is.
\<close>

theorem findLineupChanges_within_optimal:
  "map (\<lambda>c. (change_position c, current_playerId c))
     (findLineupChanges n2s parse currentStarters optimizedLineup players)
   = filter (differs optimizedLineup) (enumerate 0 currentStarters)
   \<and> (\<forall>c \<in> set (findLineupChanges n2s parse currentStarters optimizedLineup players).
        change_position c < length optimizedLineup)"
proof
  show m: "map (\<lambda>c. (change_position c, current_playerId c))
     (findLineupChanges n2s parse currentStarters optimizedLineup players)
   = filter (differs optimizedLineup) (enumerate 0 currentStarters)"
    by (simp add: findLineupChanges_def map_filter_changeAt)
  show "\<forall>c \<in> set (findLineupChanges n2s parse currentStarters optimizedLineup players).
        change_position c < length optimizedLineup"
  proof
    fix c assume "c \<in> set (findLineupChanges n2s parse currentStarters optimizedLineup players)"
    then have "(change_position c, current_playerId c)
        \<in> set (map (\<lambda>c. (change_position c, current_playerId c))
             (findLineupChanges n2s parse currentStarters optimizedLineup players))"
      by force
    then have "differs optimizedLineup (change_position c, current_playerId c)"
      unfolding m by simp
    then show "change_position c < length optimizedLineup" by (simp add: differs_def)
  qed
qed

text \<open>
  The instance of three starters and a lineup of two: the third starter, K1, is no
  player of the lineup, and there is no change for it.
\<close>

theorem findLineupChanges_within_optimal_witness:
  "map (\<lambda>c. (change_position c, current_playerId c))
     (findLineupChanges (\<lambda>r. []) (\<lambda>s. None) [''QB2'', ''RB1'', ''K1'']
        scenarioD_optimal scenarioD_players)
   = [(0, ''QB2'')]
   \<and> list_all (\<lambda>c. change_position c < length scenarioD_optimal)
       (findLineupChanges (\<lambda>r. []) (\<lambda>s. None) [''QB2'', ''RB1'', ''K1'']
          scenarioD_optimal scenarioD_players)"
  using findLineupChanges_within_optimal [of "\<lambda>r. []" "\<lambda>s. None" "[''QB2'', ''RB1'', ''K1'']"
      scenarioD_optimal scenarioD_players]
  by (simp add: list_all_iff differs_def scenarioD_optimal_def withLineupPosition_simps
      activePlayer_def)

end
